theory Spec2Isabelle
  imports Main "HOL-Library.Word"
begin

unbundle bit_operations_syntax

section \<open>Constants of fastyz.h and fastyz.c\<close>

type_synonym byte = "8 word"
type_synonym u16 = "16 word"
type_synonym u32 = "32 word"

text \<open>The macros of the header, usable at every numeric type (pointer offsets are
  naturals, C \<open>int\<close>s are integers, \<open>uint32_t\<close> values are 32-bit words).\<close>

abbreviation (input) YAZ0_HEADER_SIZE :: "'a::numeral" where
  "YAZ0_HEADER_SIZE \<equiv> 16"

abbreviation (input) MAX_COPY :: "'a::numeral" where
  "MAX_COPY \<equiv> 8"

abbreviation (input) SHORT_FORM_MIN :: "'a::numeral" where
  "SHORT_FORM_MIN \<equiv> 3"

abbreviation (input) LONG_FORM_MIN :: "'a::numeral" where
  "LONG_FORM_MIN \<equiv> 18"

abbreviation (input) MAX_LEN :: "'a::numeral" where
  "MAX_LEN \<equiv> 273"

abbreviation (input) MAX_MATCH_DISTANCE :: "'a::numeral" where
  "MAX_MATCH_DISTANCE \<equiv> 4096"

abbreviation (input) HASH_LOG :: nat where
  "HASH_LOG \<equiv> 14"

abbreviation (input) HASH_MASK :: u32 where
  "HASH_MASK \<equiv> 0x3FFF"

abbreviation (input) INT_MAX :: int where
  "INT_MAX \<equiv> 2147483647"

text \<open>Division of C \<open>int\<close>s truncates toward zero.\<close>

definition c_div :: "int \<Rightarrow> int \<Rightarrow> int" where
  "c_div a b = sgn a * sgn b * (\<bar>a\<bar> div \<bar>b\<bar>)"

text \<open>\<open>FASTYZ_BOUND(length)\<close> at type \<open>int\<close>, the type of the parameter
  \<open>length\<close> of \<open>yaz0_compress\<close>. The sums are taken from left to right;
  \<open>None\<close> stands for a sum that leaves the range of \<open>int\<close>, which C leaves
  undefined.\<close>

definition in_int_range :: "int \<Rightarrow> bool" where
  "in_int_range v \<longleftrightarrow> - INT_MAX - 1 \<le> v \<and> v \<le> INT_MAX"

definition FASTYZ_BOUND :: "int \<Rightarrow> int option" where
  "FASTYZ_BOUND length_in =
     (let v1 = YAZ0_HEADER_SIZE + length_in;
          v2 = v1 + c_div length_in 8;
          v3 = v2 + 1
      in if in_int_range v1 \<and> in_int_range v2 \<and> in_int_range v3 then Some v3 else None)"

section \<open>Memory access utilities\<close>

text \<open>A buffer is the list of its bytes and a pointer into it is an offset.
  \<open>read_u32\<close> is the little-endian composition of the portable variant; the
  64-bit variant is the native load of the same four bytes.\<close>

definition read_u32 :: "byte list \<Rightarrow> nat \<Rightarrow> u32" where
  "read_u32 m p =
     push_bit 24 (ucast (m ! (p + 3))) OR push_bit 16 (ucast (m ! (p + 2)))
       OR push_bit 8 (ucast (m ! (p + 1))) OR ucast (m ! p)"

text \<open>\<open>compute_hash\<close>: the product is taken in \<open>long long\<close> (64 bits), shifted,
  truncated to \<open>uint32_t\<close> and masked.\<close>

definition compute_hash :: "u32 \<Rightarrow> u16" where
  "compute_hash v =
     (let h = (ucast (signed_drop_bit (32 - HASH_LOG) ((ucast v :: 64 word) * 2654435769)) :: u32)
      in ucast (h AND HASH_MASK))"

text \<open>The byte loop shared by both variants of \<open>compare_match\<close>; it returns the
  final value of \<open>p\<close>. The limit is an integer offset, since the caller computes it
  as \<open>ip + length - 4\<close>.\<close>

function cmp_loop :: "byte list \<Rightarrow> nat \<Rightarrow> nat \<Rightarrow> int \<Rightarrow> nat" where
  "cmp_loop m p q limit =
     (if int q < limit \<and> m ! p = m ! q then cmp_loop m (p + 1) (q + 1) limit else p)"
  by pat_completeness auto
termination
  by (relation "measure (\<lambda>(m, p, q, limit). nat (limit - int q))") auto

declare cmp_loop.simps [simp del]

text \<open>\<open>compare_match\<close>: with \<open>arch64\<close> (the build defines \<open>YAZ0_ARCH64\<close>) four
  bytes are compared first, without looking at the limit.\<close>

definition compare_match :: "bool \<Rightarrow> byte list \<Rightarrow> nat \<Rightarrow> nat \<Rightarrow> int \<Rightarrow> u32" where
  "compare_match arch64 m p q limit =
     (let start = p;
          (p, q) = (if arch64 \<and> read_u32 m p = read_u32 m q then (p + 4, q + 4) else (p, q))
      in of_nat (cmp_loop m p q limit - start))"

text \<open>\<open>small_copy\<close> and \<open>max_copy\<close> copy \<open>count\<close> (respectively 8) bytes
  starting at \<open>src\<close>; the word-wise variant copies the same bytes.\<close>

definition small_copy :: "byte list \<Rightarrow> nat \<Rightarrow> nat \<Rightarrow> byte list" where
  "small_copy m src count = map (\<lambda>i. m ! (src + i)) [0..<count]"

definition max_copy :: "byte list \<Rightarrow> nat \<Rightarrow> byte list" where
  "max_copy m src = map (\<lambda>i. m ! (src + i)) [0..<MAX_COPY]"

section \<open>The writer\<close>

text \<open>\<open>buf\<close> holds the bytes of the output buffer from its start up to \<open>op\<close>,
  so that \<open>op\<close> is \<open>length buf\<close> and \<open>*w->op++ = b\<close> appends \<open>b\<close>;
  \<open>flagp\<close> is the offset of the current flag byte.\<close>

record yaz0_writer =
  buf :: "byte list"
  flagp :: nat
  mask_w :: byte

definition writer_new_group :: "yaz0_writer \<Rightarrow> yaz0_writer" where
  "writer_new_group w = w\<lparr>flagp := length (buf w), buf := buf w @ [0], mask_w := 0x80\<rparr>"

text \<open>\<open>__builtin_ctz\<close> on a non-zero byte.\<close>

definition ctz :: "byte \<Rightarrow> nat" where
  "ctz m = (if bit m 0 then 0 else if bit m 1 then 1 else if bit m 2 then 2
            else if bit m 3 then 3 else if bit m 4 then 4 else if bit m 5 then 5
            else if bit m 6 then 6 else 7)"

text \<open>The \<open>for\<close> loop of \<open>writer_emit_literals\<close> that sets \<open>n\<close> flag bits.\<close>

fun set_flag_bits :: "nat \<Rightarrow> yaz0_writer \<Rightarrow> yaz0_writer" where
  "set_flag_bits n w =
     (if n = 0 then w
      else set_flag_bits (n - 1)
             (w\<lparr>buf := (buf w)[flagp w := (buf w ! flagp w) OR mask_w w],
                mask_w := drop_bit 1 (mask_w w)\<rparr>))"

declare set_flag_bits.simps [simp del]

text \<open>The second and third part of \<open>writer_emit_literals\<close>: full groups of eight
  literals, then the remaining ones.\<close>

function emit_full_groups :: "byte list \<Rightarrow> yaz0_writer \<Rightarrow> nat \<Rightarrow> nat \<Rightarrow> yaz0_writer \<times> nat \<times> nat" where
  "emit_full_groups m w count src =
     (if count \<ge> MAX_COPY then
        emit_full_groups m
          (writer_new_group (w\<lparr>buf := (buf w)[flagp w := 0xFF] @ max_copy m src\<rparr>))
          (count - MAX_COPY) (src + MAX_COPY)
      else (w, count, src))"
  by pat_completeness auto
termination
  by (relation "measure (\<lambda>(m, w, count, src). count)") auto

declare emit_full_groups.simps [simp del]

definition emit_groups :: "byte list \<Rightarrow> yaz0_writer \<Rightarrow> nat \<Rightarrow> nat \<Rightarrow> yaz0_writer" where
  "emit_groups m w count src =
     (case emit_full_groups m w count src of (w, count, src) \<Rightarrow>
        if count \<noteq> 0 then
          w\<lparr>buf := (buf w)[flagp w := (buf w ! flagp w) OR ucast (push_bit (8 - count) (0xFF :: u32))]
                     @ small_copy m src count,
            mask_w := ucast (drop_bit count (0x80 :: u32))\<rparr>
        else w)"

definition writer_emit_literals :: "byte list \<Rightarrow> yaz0_writer \<Rightarrow> nat \<Rightarrow> nat \<Rightarrow> yaz0_writer" where
  "writer_emit_literals m w count src =
     (if count = 0 then w
      else if mask_w w \<noteq> 0x80 then
        (let room = ctz (mask_w w) + 1;
             fits_in_room = count < room;
             n = (if fits_in_room then count else room);
             w = set_flag_bits n w;
             w = w\<lparr>buf := buf w @ small_copy m src n\<rparr>;
             src = src + n;
             count = count - n
         in if fits_in_room then w
            else emit_groups m (writer_new_group w) count src)
      else emit_groups m w count src)"

text \<open>Consuming the flag bit of a match, and the two encodings of a match.\<close>

definition consume_flag_bit :: "yaz0_writer \<Rightarrow> yaz0_writer" where
  "consume_flag_bit w =
     (let w = w\<lparr>mask_w := drop_bit 1 (mask_w w)\<rparr>
      in if mask_w w = 0 then writer_new_group w else w)"

definition put_long_form :: "yaz0_writer \<Rightarrow> u32 \<Rightarrow> u32 \<Rightarrow> yaz0_writer" where
  "put_long_form w len distance =
     (let dist_high = (ucast (drop_bit 8 distance AND 0x0F) :: byte)
      in w\<lparr>buf := buf w @ [dist_high, ucast (distance AND 0xFF), ucast (len - LONG_FORM_MIN)]\<rparr>)"

definition put_short_form :: "yaz0_writer \<Rightarrow> u32 \<Rightarrow> u32 \<Rightarrow> yaz0_writer" where
  "put_short_form w len distance =
     (let code = (ucast (push_bit 12 (len - (SHORT_FORM_MIN - 1)) OR distance) :: u16)
      in w\<lparr>buf := buf w @ [ucast (drop_bit 8 code), ucast (code AND 0xFF)]\<rparr>)"

text \<open>The \<open>while (len > MAX_LEN)\<close> loop of \<open>writer_emit_match\<close>; \<open>distance\<close> is
  already decremented.\<close>

function emit_match_chunks :: "yaz0_writer \<Rightarrow> u32 \<Rightarrow> u32 \<Rightarrow> yaz0_writer \<times> u32" where
  "emit_match_chunks w len distance =
     (if len > MAX_LEN then
        (let chunk = (if len - MAX_LEN < SHORT_FORM_MIN then MAX_LEN - (SHORT_FORM_MIN - 1) else MAX_LEN)
         in emit_match_chunks (consume_flag_bit (put_long_form w chunk distance)) (len - chunk) distance)
      else (w, len))"
  by pat_completeness auto
termination
proof (relation "measure (\<lambda>(w, len, distance). unat len)")
  show "wf (measure (\<lambda>(w, len, distance). unat len))" by simp
next
  fix w :: yaz0_writer and len distance chunk :: u32
  assume gt: "MAX_LEN < len"
    and ch: "chunk = (if len - MAX_LEN < SHORT_FORM_MIN then MAX_LEN - (SHORT_FORM_MIN - 1) else MAX_LEN)"
  from gt have l: "273 < unat len" by (simp add: word_less_nat_alt)
  have c: "chunk = 271 \<or> chunk = 273" using ch by auto
  then have "unat (len - chunk) < unat len"
  proof
    assume "chunk = 271"
    moreover have "unat (len - 271) = unat len - 271"
      using l by (subst unat_sub) (simp_all add: word_le_nat_alt)
    ultimately show ?thesis using l by simp
  next
    assume "chunk = 273"
    moreover have "unat (len - 273) = unat len - 273"
      using l by (subst unat_sub) (simp_all add: word_le_nat_alt)
    ultimately show ?thesis using l by simp
  qed
  then show "((consume_flag_bit (put_long_form w chunk distance), len - chunk, distance), w, len, distance)
      \<in> measure (\<lambda>(w, len, distance). unat len)" by simp
qed

declare emit_match_chunks.simps [simp del]

definition writer_emit_match :: "yaz0_writer \<Rightarrow> u32 \<Rightarrow> u32 \<Rightarrow> yaz0_writer" where
  "writer_emit_match w len distance =
     (let distance = distance - 1;
          (w, len) = (if len > MAX_LEN then emit_match_chunks w len distance else (w, len));
          w = (if len < LONG_FORM_MIN then put_short_form w len distance
               else put_long_form w len distance)
      in consume_flag_bit w)"

section \<open>Compression\<close>

text \<open>The \<open>do ... while (seq != cmp)\<close> loop of \<open>yaz0_compress\<close>. It returns
  \<open>ip\<close>, \<open>ref\<close> (as an offset), \<open>distance\<close>, \<open>seq\<close>, \<open>cmp\<close> and the hash
  table. When it leaves through \<open>break\<close>, \<open>ip\<close> has not been incremented.\<close>

function probe :: "byte list \<Rightarrow> int \<Rightarrow> nat \<Rightarrow> (u16 \<Rightarrow> u32)
    \<Rightarrow> nat \<times> nat \<times> u32 \<times> u32 \<times> u32 \<times> (u16 \<Rightarrow> u32)" where
  "probe m ip_limit ip htab =
     (let seq = read_u32 m ip AND 0xffffff;
          hash = compute_hash seq;
          ref = unat (htab hash);
          htab = htab(hash := of_nat ip);
          distance = (of_nat ip - of_nat ref :: u32);
          cmp = (if distance < MAX_MATCH_DISTANCE then read_u32 m ref AND 0xffffff else 0x1000000)
      in if int ip \<ge> ip_limit then (ip, ref, distance, seq, cmp, htab)
         else if seq \<noteq> cmp then probe m ip_limit (ip + 1) htab
         else (ip + 1, ref, distance, seq, cmp, htab))"
  by pat_completeness auto
termination
  by (relation "measure (\<lambda>(m, ip_limit, ip, htab). nat (ip_limit - int ip))") auto

declare probe.simps [simp del]

lemma probe_ip_ge: "ip \<le> fst (probe m ip_limit ip htab)"
proof (induction m ip_limit ip htab rule: probe.induct)
  case (1 m ip_limit ip htab)
  show ?case
    using "1.IH" [OF refl refl refl refl refl refl]
    by (subst probe.simps) (auto simp: Let_def fun_upd_def)
qed

text \<open>The state of the main loop. \<open>calls\<close> is not a variable of the program: it
  records the arguments \<open>(len, distance)\<close> of every call of \<open>writer_emit_match\<close>,
  in order.\<close>

record enc_state =
  ip :: nat
  anchor :: nat
  htab :: "u16 \<Rightarrow> u32"
  writer :: yaz0_writer
  calls :: "(u32 \<times> u32) list"

function compress_loop :: "bool \<Rightarrow> byte list \<Rightarrow> int \<Rightarrow> enc_state \<Rightarrow> enc_state" where
  "compress_loop arch64 m length_in s =
     (let ip_bound = length_in - 4;
          ip_limit = length_in - 12 - 1
      in if int (ip s) < ip_limit then
           (case probe m ip_limit (ip s) (htab s) of
              (ip1, ref, distance, seq, cmp, htab1) \<Rightarrow>
                if int ip1 \<ge> ip_limit then s\<lparr>ip := ip1, htab := htab1\<rparr>
                else
                  (let ip2 = ip1 - 1;
                       w1 = (if anchor s < ip2
                             then writer_emit_literals m (writer s)
                                    (unat (word_of_nat (ip2 - anchor s) :: u32)) (anchor s)
                             else writer s);
                       len = compare_match arch64 m (ref + SHORT_FORM_MIN) (ip2 + SHORT_FORM_MIN) ip_bound
                               + SHORT_FORM_MIN;
                       w2 = writer_emit_match w1 len distance;
                       ip3 = ip2 + unat len;
                       seq = read_u32 m ip3;
                       htab2 = htab1(compute_hash (seq AND 0xFFFFFF) := of_nat ip3);
                       ip4 = ip3 + 1;
                       seq = drop_bit 8 seq;
                       htab3 = htab2(compute_hash seq := of_nat ip4);
                       ip5 = ip4 + 1
                   in compress_loop arch64 m length_in
                        \<lparr>ip = ip5, anchor = ip3, htab = htab3, writer = w2,
                         calls = calls s @ [(len, distance)]\<rparr>))
         else s)"
  by pat_completeness auto
termination
  apply (relation "measure (\<lambda>(arch64, m, length_in, s). nat (length_in - int (ip s)))")
   apply simp
  apply auto
  subgoal premises p for arch64 m length_in s ip1 ref distance seq cmp htab1
  proof -
    have "ip s \<le> ip1"
      using probe_ip_ge [of "ip s" m "length_in - 13" "htab s"] p(2) [symmetric] by simp
    moreover have "0 \<le> uint (compare_match arch64 m (ref + 3) (ip1 - Suc 0 + 3) (length_in - 4) + 3)"
      by simp
    ultimately show ?thesis by linarith
  qed
  done

declare compress_loop.simps [simp del]

text \<open>The sixteen bytes of the header as \<open>yaz0_compress\<close> writes them; the shifts
  are C's on \<open>int\<close>.\<close>

definition yaz0_header :: "int \<Rightarrow> byte list" where
  "yaz0_header length_in =
     [0x59, 0x61, 0x7A, 0x30,
      word_of_int (drop_bit 24 length_in AND 0xFF),
      word_of_int (drop_bit 16 length_in AND 0xFF),
      word_of_int (drop_bit 8 length_in AND 0xFF),
      word_of_int (length_in AND 0xFF)] @ replicate (YAZ0_HEADER_SIZE - 8) 0"

text \<open>The state in which the main loop leaves the encoder.\<close>

definition compress_scan :: "bool \<Rightarrow> byte list \<Rightarrow> int \<Rightarrow> enc_state" where
  "compress_scan arch64 m length_in =
     compress_loop arch64 m length_in
       \<lparr>ip = SHORT_FORM_MIN - 1, anchor = 0, htab = (\<lambda>_. 0),
        writer = writer_new_group \<lparr>buf = yaz0_header length_in, flagp = 0, mask_w = 0\<rparr>,
        calls = []\<rparr>"

text \<open>The output buffer from its start to the final \<open>w.op\<close>.\<close>

definition compress_output :: "bool \<Rightarrow> byte list \<Rightarrow> int \<Rightarrow> byte list" where
  "compress_output arch64 m length_in =
     (let s = compress_scan arch64 m length_in;
          remaining = unat (word_of_int (length_in - int (anchor s)) :: u32)
      in buf (writer_emit_literals m (writer s) remaining (anchor s)))"

text \<open>The value \<open>yaz0_compress\<close> returns: \<open>(int)(w.op - (uint8_t*)output)\<close>.\<close>

definition yaz0_compress :: "bool \<Rightarrow> byte list \<Rightarrow> int \<Rightarrow> int" where
  "yaz0_compress arch64 m length_in =
     sint (word_of_nat (length (compress_output arch64 m length_in)) :: 32 word)"

text \<open>The arguments of the calls of \<open>writer_emit_match\<close> made by \<open>yaz0_compress\<close>.\<close>

definition emitted_matches :: "bool \<Rightarrow> byte list \<Rightarrow> int \<Rightarrow> (u32 \<times> u32) list" where
  "emitted_matches arch64 m length_in = calls (compress_scan arch64 m length_in)"

section \<open>Decompression\<close>

text \<open>A read at an offset outside the buffer has no value.\<close>

definition rd :: "byte list \<Rightarrow> nat \<Rightarrow> byte option" where
  "rd m i = (if i < length m then Some (m ! i) else None)"

text \<open>\<open>yaz0_is_valid\<close> and \<open>yaz0_get_decompressed_size\<close>; \<open>None\<close> stands for a
  read outside the input buffer (neither function is given its length).\<close>

definition yaz0_is_valid :: "byte list \<Rightarrow> int option" where
  "yaz0_is_valid input =
     (case rd input 0 of None \<Rightarrow> None | Some b0 \<Rightarrow>
        if b0 \<noteq> 0x59 then Some 0 else
     (case rd input 1 of None \<Rightarrow> None | Some b1 \<Rightarrow>
        if b1 \<noteq> 0x61 then Some 0 else
     (case rd input 2 of None \<Rightarrow> None | Some b2 \<Rightarrow>
        if b2 \<noteq> 0x7A then Some 0 else
     (case rd input 3 of None \<Rightarrow> None | Some b3 \<Rightarrow>
        if b3 \<noteq> 0x30 then Some 0 else Some 1))))"

definition yaz0_get_decompressed_size :: "byte list \<Rightarrow> u32 option" where
  "yaz0_get_decompressed_size input =
     (case yaz0_is_valid input of None \<Rightarrow> None | Some v \<Rightarrow>
        if v = 0 then Some 0
        else (case (rd input 4, rd input 5, rd input 6, rd input 7) of
                (Some b4, Some b5, Some b6, Some b7) \<Rightarrow>
                  Some (push_bit 24 (ucast b4) OR push_bit 16 (ucast b5)
                          OR push_bit 8 (ucast b6) OR ucast b7)
              | _ \<Rightarrow> None))"

text \<open>What a call of \<open>yaz0_decompress\<close> ends with: an access outside the input
  buffer or outside the first \<open>maxout\<close> bytes of the output buffer, or the returned
  value together with the bytes written to the output buffer.\<close>

datatype outcome = OutOfBounds | Return int "byte list"

text \<open>\<open>outbuf\<close> holds the bytes written so far, so that \<open>dst\<close> is
  \<open>length outbuf\<close>.\<close>

record dec_state =
  src :: nat
  outbuf :: "byte list"
  flag :: byte
  bits_remaining :: int

text \<open>A write at \<open>dst\<close>.\<close>

definition wr :: "int \<Rightarrow> byte list \<Rightarrow> byte \<Rightarrow> byte list option" where
  "wr maxout out b = (if int (length out) < maxout then Some (out @ [b]) else None)"

text \<open>The loop \<open>for (i = 0; i < len; ++i) *dst++ = *ref++\<close>.\<close>

fun copy_loop :: "int \<Rightarrow> byte list \<Rightarrow> nat \<Rightarrow> nat \<Rightarrow> byte list option" where
  "copy_loop maxout out ref n =
     (if n = 0 then Some out
      else (case rd out ref of None \<Rightarrow> None | Some b \<Rightarrow>
             (case wr maxout out b of None \<Rightarrow> None | Some out' \<Rightarrow>
                copy_loop maxout out' (ref + 1) (n - 1))))"

declare copy_loop.simps [simp del]

definition next_flag :: "byte list \<Rightarrow> int \<Rightarrow> dec_state \<Rightarrow> outcome + dec_state" where
  "next_flag input length_in s =
     (if bits_remaining s = 0 then
        (if int (src s) \<ge> length_in then Inl (Return 0 (outbuf s))
         else (case rd input (src s) of None \<Rightarrow> Inl OutOfBounds
               | Some b \<Rightarrow> Inr (s\<lparr>flag := b, src := src s + 1, bits_remaining := 8\<rparr>)))
      else Inr s)"

definition literal_token :: "byte list \<Rightarrow> int \<Rightarrow> int \<Rightarrow> dec_state \<Rightarrow> outcome + dec_state" where
  "literal_token input length_in maxout s =
     (if int (src s) \<ge> length_in \<or> int (length (outbuf s)) \<ge> maxout then Inl (Return 0 (outbuf s))
      else (case rd input (src s) of None \<Rightarrow> Inl OutOfBounds | Some b \<Rightarrow>
             (case wr maxout (outbuf s) b of None \<Rightarrow> Inl OutOfBounds | Some out' \<Rightarrow>
                Inr (s\<lparr>outbuf := out', src := src s + 1\<rparr>))))"

text \<open>Reading a match code: the distance, the length and the state after the code.\<close>

definition read_match_code :: "byte list \<Rightarrow> int \<Rightarrow> dec_state \<Rightarrow> outcome + (u32 \<times> u32 \<times> dec_state)" where
  "read_match_code input length_in s =
     (if int (src s) + 2 > length_in then Inl (Return 0 (outbuf s))
      else (case (rd input (src s), rd input (src s + 1)) of
              (Some byte1, Some byte2) \<Rightarrow>
                (let s1 = s\<lparr>src := src s + 2\<rparr>;
                     distance = (push_bit 8 (ucast (byte1 AND 0x0F)) OR ucast byte2) + (1 :: u32);
                     len = (ucast (drop_bit 4 byte1) :: u32)
                 in if len = 0 then
                      (if int (src s1) \<ge> length_in then Inl (Return 0 (outbuf s))
                       else (case rd input (src s1) of None \<Rightarrow> Inl OutOfBounds
                             | Some byte3 \<Rightarrow>
                                 Inr (distance, ucast byte3 + LONG_FORM_MIN, s1\<lparr>src := src s1 + 1\<rparr>)))
                    else Inr (distance, len + (SHORT_FORM_MIN - 1), s1))
            | _ \<Rightarrow> Inl OutOfBounds))"

definition match_token :: "byte list \<Rightarrow> int \<Rightarrow> int \<Rightarrow> dec_state \<Rightarrow> outcome + dec_state" where
  "match_token input length_in maxout s =
     (case read_match_code input length_in s of Inl r \<Rightarrow> Inl r
      | Inr (distance, len, s1) \<Rightarrow>
          if int (length (outbuf s1)) - int (unat distance) < 0 then Inl (Return 0 (outbuf s1))
          else if int (length (outbuf s1)) + int (unat len) > maxout then Inl (Return 0 (outbuf s1))
          else (case copy_loop maxout (outbuf s1) (length (outbuf s1) - unat distance) (unat len) of
                  None \<Rightarrow> Inl OutOfBounds
                | Some out' \<Rightarrow> Inr (s1\<lparr>outbuf := out'\<rparr>)))"

text \<open>One iteration of the decompression loop.\<close>

definition decode_token :: "byte list \<Rightarrow> int \<Rightarrow> int \<Rightarrow> dec_state \<Rightarrow> outcome + dec_state" where
  "decode_token input length_in maxout s =
     (case next_flag input length_in s of Inl r \<Rightarrow> Inl r
      | Inr s1 \<Rightarrow>
          (case (if flag s1 AND 0x80 \<noteq> 0 then literal_token input length_in maxout s1
                 else match_token input length_in maxout s1) of
             Inl r \<Rightarrow> Inl r
           | Inr s2 \<Rightarrow>
               Inr (s2\<lparr>flag := push_bit 1 (flag s2), bits_remaining := bits_remaining s2 - 1\<rparr>)))"

text \<open>The loop \<open>while (dst < output + decompressed_size)\<close> and the final
  \<open>return (int)(dst - (uint8_t*)output)\<close>; \<open>None\<close> is a loop that does not end.\<close>

partial_function (option) decompress_loop ::
    "byte list \<Rightarrow> int \<Rightarrow> int \<Rightarrow> u32 \<Rightarrow> dec_state \<Rightarrow> outcome option" where
  "decompress_loop input length_in maxout decompressed_size s =
     (if length (outbuf s) < unat decompressed_size then
        (case decode_token input length_in maxout s of
           Inl r \<Rightarrow> Some r
         | Inr s' \<Rightarrow> decompress_loop input length_in maxout decompressed_size s')
      else Some (Return (sint (word_of_nat (length (outbuf s)) :: u32)) (outbuf s)))"

declare decompress_loop.simps [code]

definition yaz0_decompress :: "byte list \<Rightarrow> int \<Rightarrow> int \<Rightarrow> outcome option" where
  "yaz0_decompress input length_in maxout =
     (if length_in < YAZ0_HEADER_SIZE then Some (Return 0 [])
      else (case yaz0_get_decompressed_size input of None \<Rightarrow> Some OutOfBounds
            | Some decompressed_size \<Rightarrow>
                if decompressed_size = 0 then Some (Return 0 [])
                else if sint decompressed_size > maxout then Some (Return 0 [])
                else decompress_loop input length_in maxout decompressed_size
                       \<lparr>src = YAZ0_HEADER_SIZE, outbuf = [], flag = 0, bits_remaining = 0\<rparr>))"

section \<open>Definitions used to state the properties\<close>

text \<open>The byte-by-byte loop the specification describes for the prefix match length:
  advance both cursors while the bytes are equal and \<open>q < qlimit\<close>, and return the
  number of bytes advanced.\<close>

function byte_loop_spec :: "byte list \<Rightarrow> nat \<Rightarrow> nat \<Rightarrow> int \<Rightarrow> nat" where
  "byte_loop_spec m p q qlimit =
     (if m ! p = m ! q \<and> int q < qlimit then Suc (byte_loop_spec m (p + 1) (q + 1) qlimit) else 0)"
  by pat_completeness auto
termination
  by (relation "measure (\<lambda>(m, p, q, qlimit). nat (qlimit - int q))") auto

declare byte_loop_spec.simps [simp del]

text \<open>The flag bits a run of \<open>n\<close> literals sets, starting at the bit \<open>msk\<close>.\<close>

fun run_bits :: "byte \<Rightarrow> nat \<Rightarrow> byte" where
  "run_bits msk n = (if n = 0 then 0 else msk OR run_bits (drop_bit 1 msk) (n - 1))"

declare run_bits.simps [simp del]

text \<open>Literal emission as the specification words it: after filling the current group
  with \<open>n0 = min n room\<close> literals it returns if \<open>n0 = n\<close>, and otherwise starts a new
  group and goes on with steps 2 and 3 (which \<open>emit_groups\<close> models).\<close>

definition emit_literals_spec :: "byte list \<Rightarrow> yaz0_writer \<Rightarrow> nat \<Rightarrow> nat \<Rightarrow> yaz0_writer" where
  "emit_literals_spec m w n pos =
     (if n = 0 then w
      else if mask_w w \<noteq> 0x80 then
        (let room = ctz (mask_w w) + 1;
             n0 = min n room;
             w = set_flag_bits n0 w;
             w = w\<lparr>buf := buf w @ small_copy m pos n0\<rparr>
         in if n0 = n then w
            else emit_groups m (writer_new_group w) (n - n0) (pos + n0))
      else emit_groups m w n pos)"

text \<open>The pieces into which the specification splits a match of \<open>n\<close> bytes: while
  more than 273 bytes are left, a chunk of 271 bytes when a full chunk would leave 1 or 2
  bytes and of 273 bytes otherwise; then the final piece.\<close>

function match_pieces :: "nat \<Rightarrow> nat list" where
  "match_pieces n =
     (if n > 273 then
        (let c = (if n - 273 < 3 then 273 - 2 else 273) in c # match_pieces (n - c))
      else [n])"
  by pat_completeness auto
termination
  by (relation "measure id") (auto split: if_splits)

declare match_pieces.simps [simp del]

text \<open>The code of one piece of \<open>c\<close> bytes as the specification gives it, \<open>d\<close> being the
  stored distance (the distance minus one): the short form for 3 to 17 bytes, the long
  form above.\<close>

definition piece_code_spec :: "nat \<Rightarrow> u32 \<Rightarrow> byte list" where
  "piece_code_spec c d =
     (if c \<le> 17
      then [push_bit 4 (of_nat (c - 2)) OR ucast (drop_bit 8 d AND 0x0F), ucast (d AND 0xFF)]
      else [ucast (drop_bit 8 d AND 0x0F), ucast (d AND 0xFF), of_nat (c - 18)])"

text \<open>Emitting one piece as the specification words it: write its code, shift the mask
  right by one and, if the mask has become zero, start a new group (a zero flag byte at
  \<open>op\<close>, \<open>flagp\<close> at that byte, the mask at \<open>0x80\<close>).\<close>

definition emit_piece_spec :: "u32 \<Rightarrow> yaz0_writer \<Rightarrow> nat \<Rightarrow> yaz0_writer" where
  "emit_piece_spec d w c =
     (if drop_bit 1 (mask_w w) = 0
      then \<lparr>buf = buf w @ piece_code_spec c d @ [0],
            flagp = length (buf w @ piece_code_spec c d), mask_w = 0x80\<rparr>
      else \<lparr>buf = buf w @ piece_code_spec c d, flagp = flagp w,
            mask_w = drop_bit 1 (mask_w w)\<rparr>)"

text \<open>The states in which the decompression loop evaluates its condition, for an input
  whose header declares \<open>decompressed_size\<close>.\<close>

inductive reachable :: "byte list \<Rightarrow> int \<Rightarrow> int \<Rightarrow> u32 \<Rightarrow> dec_state \<Rightarrow> bool"
  for inp :: "byte list" and length_in maxout :: int and decompressed_size :: u32 where
  start: "reachable inp length_in maxout decompressed_size
            \<lparr>src = YAZ0_HEADER_SIZE, outbuf = [], flag = 0, bits_remaining = 0\<rparr>"
| iterate: "reachable inp length_in maxout decompressed_size s \<Longrightarrow>
     length (outbuf s) < unat decompressed_size \<Longrightarrow>
     decode_token inp length_in maxout s = Inr s' \<Longrightarrow>
     reachable inp length_in maxout decompressed_size s'"



text \<open>Example streams. \<open>stream_abcd\<close> holds four literals and declares four bytes;
  \<open>stream_overrun\<close> declares four bytes and holds a literal followed by a match of
  length 17 at distance 1; \<open>stream_truncated\<close> declares four bytes and ends after its
  first literal; \<open>stream_bad_magic\<close> does not start with the magic.\<close>

definition stream_abcd :: "byte list" where
  "stream_abcd = [0x59, 0x61, 0x7A, 0x30, 0, 0, 0, 4, 0, 0, 0, 0, 0, 0, 0, 0,
                  0xFF, 0x41, 0x42, 0x43, 0x44]"




section \<open>Properties\<close>

subsection \<open>Unaligned loads\<close>

lemma le32_byte0: "(ucast (push_bit 24 (ucast (d::byte)) OR push_bit 16 (ucast (c::byte)) OR push_bit 8 (ucast (b::byte)) OR (ucast (a::byte) :: u32)) :: byte) = a"
  by (rule bit_word_eqI) (auto simp: bit_simps)

lemma le32_byte1: "(ucast (drop_bit 8 (push_bit 24 (ucast (d::byte)) OR push_bit 16 (ucast (c::byte)) OR push_bit 8 (ucast (b::byte)) OR (ucast (a::byte) :: u32))) :: byte) = b"
  by (rule bit_word_eqI) (auto simp: bit_simps dest: bit_imp_le_length)

lemma le32_byte2: "(ucast (drop_bit 16 (push_bit 24 (ucast (d::byte)) OR push_bit 16 (ucast (c::byte)) OR push_bit 8 (ucast (b::byte)) OR (ucast (a::byte) :: u32))) :: byte) = c"
  by (rule bit_word_eqI) (auto simp: bit_simps dest: bit_imp_le_length)

lemma le32_byte3: "(ucast (drop_bit 24 (push_bit 24 (ucast (d::byte)) OR push_bit 16 (ucast (c::byte)) OR push_bit 8 (ucast (b::byte)) OR (ucast (a::byte) :: u32))) :: byte) = d"
  by (rule bit_word_eqI) (auto simp: bit_simps dest: bit_imp_le_length)

lemma read_u32_bytes:
  "ucast (read_u32 m p) = m ! p"
  "ucast (drop_bit 8 (read_u32 m p)) = m ! (p + 1)"
  "ucast (drop_bit 16 (read_u32 m p)) = m ! (p + 2)"
  "ucast (drop_bit 24 (read_u32 m p)) = m ! (p + 3)"
  unfolding read_u32_def by (rule le32_byte0 le32_byte1 le32_byte2 le32_byte3)+

lemma read_u32_eq_iff:
  "read_u32 m p = read_u32 m q \<longleftrightarrow>
     m ! p = m ! q \<and> m ! (p + 1) = m ! (q + 1) \<and> m ! (p + 2) = m ! (q + 2) \<and> m ! (p + 3) = m ! (q + 3)"
proof
  assume e: "read_u32 m p = read_u32 m q"
  show "m ! p = m ! q \<and> m ! (p + 1) = m ! (q + 1) \<and> m ! (p + 2) = m ! (q + 2) \<and> m ! (p + 3) = m ! (q + 3)"
    using read_u32_bytes [of m p] read_u32_bytes [of m q] unfolding e by metis
next
  assume "m ! p = m ! q \<and> m ! (p + 1) = m ! (q + 1) \<and> m ! (p + 2) = m ! (q + 2) \<and> m ! (p + 3) = m ! (q + 3)"
  then show "read_u32 m p = read_u32 m q" by (simp add: read_u32_def)
qed

lemma mask24_bytes:
  "ucast ((v::u32) AND 0xffffff) = (ucast v :: byte)"
  "ucast (drop_bit 8 ((v::u32) AND 0xffffff)) = (ucast (drop_bit 8 v) :: byte)"
  "ucast (drop_bit 16 ((v::u32) AND 0xffffff)) = (ucast (drop_bit 16 v) :: byte)"
proof -
  have m: "(0xffffff :: u32) = mask 24" by (simp add: mask_eq_exp_minus_1)
  show "ucast ((v::u32) AND 0xffffff) = (ucast v :: byte)"
    unfolding m by (rule bit_word_eqI) (auto simp: bit_simps)
  show "ucast (drop_bit 8 ((v::u32) AND 0xffffff)) = (ucast (drop_bit 8 v) :: byte)"
    unfolding m by (rule bit_word_eqI) (auto simp: bit_simps)
  show "ucast (drop_bit 16 ((v::u32) AND 0xffffff)) = (ucast (drop_bit 16 v) :: byte)"
    unfolding m by (rule bit_word_eqI) (auto simp: bit_simps)
qed

lemma seq_eq_bytes:
  assumes "read_u32 m p AND 0xffffff = read_u32 m q AND 0xffffff"
  shows "m ! p = m ! q \<and> m ! (p + 1) = m ! (q + 1) \<and> m ! (p + 2) = m ! (q + 2)"
proof -
  have "(ucast (read_u32 m p AND 0xffffff) :: byte) = ucast (read_u32 m q AND 0xffffff)"
    "(ucast (drop_bit 8 (read_u32 m p AND 0xffffff)) :: byte) = ucast (drop_bit 8 (read_u32 m q AND 0xffffff))"
    "(ucast (drop_bit 16 (read_u32 m p AND 0xffffff)) :: byte) = ucast (drop_bit 16 (read_u32 m q AND 0xffffff))"
    using assms by simp_all
  then show ?thesis unfolding mask24_bytes read_u32_bytes by simp
qed

subsection \<open>The prefix match length\<close>

lemma cmp_loop_byte_loop: "cmp_loop m p q limit = p + byte_loop_spec m p q limit"
proof (induction m p q limit rule: cmp_loop.induct)
  case (1 m p q limit)
  show ?case
  proof (cases "int q < limit \<and> m ! p = m ! q")
    case True
    then show ?thesis
      using "1.IH" by (subst cmp_loop.simps, subst byte_loop_spec.simps) simp
  next
    case False
    then show ?thesis
      by (subst cmp_loop.simps, subst byte_loop_spec.simps) auto
  qed
qed

lemma byte_loop_spec_step:
  "m ! p = m ! q \<Longrightarrow> int q < limit \<Longrightarrow>
     byte_loop_spec m p q limit = Suc (byte_loop_spec m (Suc p) (Suc q) limit)"
  by (subst byte_loop_spec.simps) simp

lemma byte_loop_spec_4:
  assumes "int q + 4 \<le> limit" and "read_u32 m p = read_u32 m q"
  shows "byte_loop_spec m p q limit = 4 + byte_loop_spec m (p + 4) (q + 4) limit"
proof -
  have n: "p + 4 = Suc (Suc (Suc (Suc p)))" "q + 4 = Suc (Suc (Suc (Suc q)))" by simp_all
  from assms(2) have "m ! p = m ! q" "m ! (p + 1) = m ! (q + 1)"
      "m ! (p + 2) = m ! (q + 2)" "m ! (p + 3) = m ! (q + 3)"
    by (simp_all add: read_u32_eq_iff)
  then have e: "m ! p = m ! q" "m ! Suc p = m ! Suc q"
      "m ! Suc (Suc p) = m ! Suc (Suc q)" "m ! Suc (Suc (Suc p)) = m ! Suc (Suc (Suc q))"
    by (simp_all add: numeral_2_eq_2 numeral_3_eq_3)
  have l: "int q < limit" "int (Suc q) < limit" "int (Suc (Suc q)) < limit"
      "int (Suc (Suc (Suc q))) < limit"
    using assms(1) by simp_all
  show ?thesis
    unfolding n
    by (simp only: byte_loop_spec_step [OF e(1) l(1)] byte_loop_spec_step [OF e(2) l(2)]
          byte_loop_spec_step [OF e(3) l(3)] byte_loop_spec_step [OF e(4) l(4)])
qed

lemma compare_match_byte_loop:
  assumes "int q + 4 \<le> limit \<or> \<not> arch64"
  shows "compare_match arch64 m p q limit = of_nat (byte_loop_spec m p q limit)"
proof (cases "arch64 \<and> read_u32 m p = read_u32 m q")
  case True
  with assms have "byte_loop_spec m p q limit = 4 + byte_loop_spec m (p + 4) (q + 4) limit"
    by (simp add: byte_loop_spec_4)
  with True show ?thesis
    by (simp add: compare_match_def cmp_loop_byte_loop)
next
  case False
  then show ?thesis
    by (auto simp: compare_match_def cmp_loop_byte_loop)
qed


subsection \<open>Literal emission\<close>

lemma list_update_twice_nth:
  "(xs[i := a])[i := f ((xs[i := a]) ! i)] = xs[i := f a]"
  by (cases "i < length xs") (simp_all add: list_update_beyond)

lemma set_flag_bits_eq:
  "set_flag_bits n w
     = w\<lparr>buf := (buf w)[flagp w := (buf w ! flagp w) OR run_bits (mask_w w) n],
         mask_w := drop_bit n (mask_w w)\<rparr>"
proof (induction n arbitrary: w)
  case 0
  show ?case by (subst set_flag_bits.simps, subst run_bits.simps) simp
next
  case (Suc n)
  have "(buf w)[flagp w := buf w ! flagp w OR mask_w w,
          flagp w := (buf w)[flagp w := buf w ! flagp w OR mask_w w] ! flagp w
                       OR run_bits (drop_bit 1 (mask_w w)) n]
      = (buf w)[flagp w := buf w ! flagp w OR mask_w w OR run_bits (drop_bit 1 (mask_w w)) n]"
    using list_update_twice_nth [where f = "\<lambda>v. v OR run_bits (drop_bit 1 (mask_w w)) n"
        and xs = "buf w" and i = "flagp w" and a = "buf w ! flagp w OR mask_w w"]
    by (simp add: or.assoc)
  then show ?case
    by (subst set_flag_bits.simps, subst run_bits.simps)
       (simp add: Suc.IH drop_bit_drop_bit or.assoc)
qed

text \<open>Claim C5, amended. In a call of \<open>writer_emit_literals\<close> with \<open>n \<ge> 1\<close>
  literals while \<open>mask \<noteq> 0x80\<close>, with \<open>room = ctz(mask) + 1\<close> and
  \<open>n0 = min n room\<close>: the next \<open>n0\<close> flag bits are set, the mask is shifted right
  \<open>n0\<close> times and \<open>n0\<close> source bytes are copied; the function then returns
  without starting a new group when \<open>n < room\<close>, and starts a new group, going on
  with the remaining \<open>n - room\<close> literals, when \<open>n \<ge> room\<close>.\<close>

theorem C5_literal_step1:
  assumes "1 \<le> n" and "mask_w w \<noteq> 0x80"
  shows "(let room = ctz (mask_w w) + 1;
              n0 = min n room;
              w1 = \<lparr>buf = (buf w)[flagp w := (buf w ! flagp w) OR run_bits (mask_w w) n0]
                            @ small_copy m pos n0,
                    flagp = flagp w,
                    mask_w = drop_bit n0 (mask_w w)\<rparr>
          in writer_emit_literals m w n pos
               = (if n < room then w1
                  else emit_groups m (writer_new_group w1) (n - room) (pos + room)))"
  using assms
  by (cases w) (auto simp: writer_emit_literals_def Let_def set_flag_bits_eq min_def)

theorem C5_witness:
  "(let room = ctz (mask_w \<lparr>buf = [0xC0, 0x41, 0x42], flagp = 0, mask_w = 0x20\<rparr>) + 1;
        n0 = min 2 room;
        w1 = \<lparr>buf = (buf \<lparr>buf = [0xC0, 0x41, 0x42], flagp = 0, mask_w = 0x20\<rparr>)
                        [flagp \<lparr>buf = [0xC0, 0x41, 0x42], flagp = 0, mask_w = 0x20\<rparr>
                           := (buf \<lparr>buf = [0xC0, 0x41, 0x42], flagp = 0, mask_w = 0x20\<rparr>
                                 ! flagp \<lparr>buf = [0xC0, 0x41, 0x42], flagp = 0, mask_w = 0x20\<rparr>)
                              OR run_bits (mask_w \<lparr>buf = [0xC0, 0x41, 0x42], flagp = 0, mask_w = 0x20\<rparr>) n0]
                      @ small_copy [0x43, 0x44] 0 n0,
              flagp = flagp \<lparr>buf = [0xC0, 0x41, 0x42], flagp = 0, mask_w = 0x20\<rparr>,
              mask_w = drop_bit n0 (mask_w \<lparr>buf = [0xC0, 0x41, 0x42], flagp = 0, mask_w = 0x20\<rparr>)\<rparr>
    in writer_emit_literals [0x43, 0x44] \<lparr>buf = [0xC0, 0x41, 0x42], flagp = 0, mask_w = 0x20\<rparr> 2 0
         = (if 2 < room then w1
            else emit_groups [0x43, 0x44] (writer_new_group w1) (2 - room) (0 + room)))"
  by (rule C5_literal_step1) simp_all

text \<open>Claim C5 as stated fails when \<open>n = room\<close>: with one free bit and one literal
  the code starts a new group (it writes a zero flag byte and resets the mask), where
  the literal emission of the specification returns with the mask at 0.\<close>

theorem C5_counterexample:
  "writer_emit_literals [0x48] \<lparr>buf = [0xFE, 0x41, 0x42, 0x43, 0x44, 0x45, 0x46, 0x47], flagp = 0, mask_w = 0x01\<rparr> 1 0
     = \<lparr>buf = [0xFF, 0x41, 0x42, 0x43, 0x44, 0x45, 0x46, 0x47, 0x48, 0x00], flagp = 9, mask_w = 0x80\<rparr>
   \<and> emit_literals_spec [0x48] \<lparr>buf = [0xFE, 0x41, 0x42, 0x43, 0x44, 0x45, 0x46, 0x47], flagp = 0, mask_w = 0x01\<rparr> 1 0
     = \<lparr>buf = [0xFF, 0x41, 0x42, 0x43, 0x44, 0x45, 0x46, 0x47, 0x48], flagp = 0, mask_w = 0x00\<rparr>"
  by code_simp

subsection \<open>One iteration of the decompression loop\<close>

lemma copy_loop_Some:
  "ref < length out \<Longrightarrow> int (length out) + int n \<le> maxout \<Longrightarrow>
     \<exists>out'. copy_loop maxout out ref n = Some out' \<and> length out' = length out + n"
proof (induction n arbitrary: out ref)
  case 0
  show ?case by (subst copy_loop.simps) simp
next
  case (Suc n)
  have "\<exists>out'. copy_loop maxout (out @ [out ! ref]) (ref + 1) n = Some out'
          \<and> length out' = length (out @ [out ! ref]) + n"
    using Suc.prems by (intro Suc.IH) simp_all
  then show ?case
    using Suc.prems by (subst copy_loop.simps) (simp add: rd_def wr_def)
qed

lemma match_distance_field:
  fixes byte1 byte2 :: byte
  shows "unat (push_bit 8 (ucast (byte1 AND 0x0F)) OR ucast byte2 :: u32) < 4096"
proof -
  let ?x = "push_bit 8 (ucast (byte1 AND mask 4)) OR ucast byte2 :: u32"
  have m: "(0x0F :: byte) = mask 4" by (simp add: mask_eq_exp_minus_1)
  have t: "take_bit 12 ?x = ?x"
    by (rule bit_word_eqI) (auto simp: bit_simps dest: bit_imp_le_length)
  have "unat ?x = unat (take_bit 12 ?x)" by (simp only: t)
  also have "\<dots> = take_bit 12 (unat ?x)" by (rule unsigned_take_bit_eq)
  also have "\<dots> < 2 ^ 12" by (rule take_bit_nat_less_exp)
  finally show ?thesis by (simp only: m) simp
qed

lemma unat_ucast_byte: "unat (ucast (b::byte) :: u32) = unat b"
proof -
  have "unat b < 2 ^ 8" using unsigned_less [of b] by simp
  then have "unat b < 2 ^ 32" by simp
  then show ?thesis by (simp add: unsigned_ucast_eq take_bit_nat_eq_self)
qed

lemma unat_byte_less: "unat (b::byte) < 256"
  using unsigned_less [of b] by simp

lemma read_match_code_Inr:
  assumes "read_match_code input length_in s = Inr (distance, len, s2)"
  shows "1 \<le> unat distance \<and> unat distance \<le> 4096 \<and> 3 \<le> unat len \<and> unat len \<le> 273
    \<and> outbuf s2 = outbuf s \<and> flag s2 = flag s \<and> bits_remaining s2 = bits_remaining s
    \<and> src s < src s2 \<and> src s2 \<le> src s + 3 \<and> int (src s2) \<le> length_in"
proof -
  from assms obtain byte1 byte2 where
    b: "rd input (src s) = Some byte1" "rd input (src s + 1) = Some byte2"
    and l: "int (src s) + 2 \<le> length_in"
    by (auto simp: read_match_code_def split: if_splits option.splits)
  let ?x = "push_bit 8 (ucast (byte1 AND 0x0F)) OR ucast byte2 :: u32"
  have d: "distance = ?x + 1"
    using assms b l by (auto simp: read_match_code_def Let_def split: if_splits option.splits)
  have "unat ?x < 4096" by (rule match_distance_field)
  then have du: "unat distance = unat ?x + 1"
    unfolding d by (simp add: unat_word_ariths)
  let ?n = "ucast (drop_bit 4 byte1) :: u32"
  have nu: "unat ?n = unat byte1 div 16"
    by (simp add: unat_ucast_byte unat_drop_bit_eq drop_bit_eq_div unat_div_distrib)
  have n16: "unat ?n < 16" using unat_byte_less [of byte1] unfolding nu by simp
  show ?thesis
  proof (cases "?n = 0")
    case True
    with assms b l obtain byte3 where b3: "rd input (src s + 2) = Some byte3"
      and r: "len = ucast byte3 + 18" "s2 = s\<lparr>src := src s + 3\<rparr>"
      and l3: "int (src s) + 3 \<le> length_in"
      by (auto simp: read_match_code_def Let_def split: if_splits option.splits)
    have "unat len = unat byte3 + 18"
      unfolding r using unat_byte_less [of byte3]
      by (simp add: unat_word_ariths unat_ucast_byte)
    then show ?thesis
      using du \<open>unat ?x < 4096\<close> r l3 unat_byte_less [of byte3] by simp
  next
    case False
    with assms b l have r: "len = ?n + 2" "s2 = s\<lparr>src := src s + 2\<rparr>"
      by (auto simp: read_match_code_def Let_def split: if_splits option.splits)
    from False have "unat ?n \<noteq> 0" using unat_gt_0 [of ?n] by linarith
    moreover have "unat len = unat ?n + 2"
      unfolding r using n16 by (simp add: unat_word_ariths)
    ultimately show ?thesis
      using du \<open>unat ?x < 4096\<close> r l n16 by simp
  qed
qed

lemma rd_Some: "int i < length_in \<Longrightarrow> length_in \<le> int (length input) \<Longrightarrow> rd input i = Some (input ! i)"
  by (simp add: rd_def)

lemma next_flag_Inr:
  "next_flag input length_in s = Inr s1 \<Longrightarrow> outbuf s1 = outbuf s \<and> src s \<le> src s1"
  by (auto simp: next_flag_def split: if_splits option.splits)

lemma next_flag_Inl:
  "next_flag input length_in s = Inl r \<Longrightarrow> length_in \<le> int (length input) \<Longrightarrow> r = Return 0 (outbuf s)"
  by (auto simp: next_flag_def rd_def split: if_splits option.splits)

lemma literal_token_Inr:
  "literal_token input length_in maxout s = Inr s' \<Longrightarrow>
     length (outbuf s') = length (outbuf s) + 1 \<and> int (length (outbuf s')) \<le> maxout"
  by (auto simp: literal_token_def wr_def split: if_splits option.splits)

lemma literal_token_Inl:
  "literal_token input length_in maxout s = Inl r \<Longrightarrow> length_in \<le> int (length input) \<Longrightarrow>
     r = Return 0 (outbuf s)"
  by (auto simp: literal_token_def wr_def rd_def split: if_splits option.splits)

lemma read_match_code_Inl:
  "read_match_code input length_in s = Inl r \<Longrightarrow> length_in \<le> int (length input) \<Longrightarrow>
     r = Return 0 (outbuf s)"
  by (auto simp: read_match_code_def rd_def Let_def split: if_splits option.splits)

lemma match_token_Inr:
  assumes "match_token input length_in maxout s = Inr s'"
  shows "length (outbuf s) + 3 \<le> length (outbuf s') \<and> int (length (outbuf s')) \<le> maxout"
proof -
  from assms obtain distance len s1 out' where
    r: "read_match_code input length_in s = Inr (distance, len, s1)"
    and c: "copy_loop maxout (outbuf s1) (length (outbuf s1) - unat distance) (unat len) = Some out'"
    and b: "\<not> int (length (outbuf s1)) - int (unat distance) < 0"
      "\<not> int (length (outbuf s1)) + int (unat len) > maxout"
    and s': "s' = s1\<lparr>outbuf := out'\<rparr>"
    by (auto simp: match_token_def split: sum.splits if_splits option.splits)
  note f = read_match_code_Inr [OF r]
  have "length (outbuf s1) - unat distance < length (outbuf s1)" using f b by linarith
  from copy_loop_Some [OF this, of "unat len" maxout] b c
  have "length out' = length (outbuf s1) + unat len" by auto
  then show ?thesis using f b s' by simp
qed

lemma match_token_Inl:
  assumes "match_token input length_in maxout s = Inl r" and "length_in \<le> int (length input)"
  shows "r = Return 0 (outbuf s)"
proof (cases "read_match_code input length_in s")
  case (Inl r')
  with assms show ?thesis by (auto simp: match_token_def dest: read_match_code_Inl)
next
  case (Inr t)
  then obtain distance len s1 where r: "read_match_code input length_in s = Inr (distance, len, s1)"
    by (cases t) auto
  note f = read_match_code_Inr [OF r]
  show ?thesis
  proof (cases "int (length (outbuf s1)) - int (unat distance) < 0
                 \<or> int (length (outbuf s1)) + int (unat len) > maxout")
    case True
    with assms r f show ?thesis by (auto simp: match_token_def split: if_splits)
  next
    case False
    then have "length (outbuf s1) - unat distance < length (outbuf s1)" using f by linarith
    from copy_loop_Some [OF this, of "unat len" maxout] False
    obtain out' where "copy_loop maxout (outbuf s1) (length (outbuf s1) - unat distance) (unat len) = Some out'"
      by auto
    with assms r False show ?thesis by (auto simp: match_token_def)
  qed
qed

lemma decode_token_Inr:
  assumes "decode_token input length_in maxout s = Inr s'"
  shows "length (outbuf s) < length (outbuf s') \<and> int (length (outbuf s')) \<le> maxout"
proof -
  from assms obtain s1 s2 where n: "next_flag input length_in s = Inr s1"
    and t: "(if flag s1 AND 0x80 \<noteq> 0 then literal_token input length_in maxout s1
             else match_token input length_in maxout s1) = Inr s2"
    and s': "s' = s2\<lparr>flag := push_bit 1 (flag s2), bits_remaining := bits_remaining s2 - 1\<rparr>"
    by (auto simp: decode_token_def split: sum.splits)
  have "length (outbuf s1) < length (outbuf s2) \<and> int (length (outbuf s2)) \<le> maxout"
    using t literal_token_Inr [of input length_in maxout s1 s2]
      match_token_Inr [of input length_in maxout s1 s2]
    by (auto split: if_splits)
  then show ?thesis using next_flag_Inr [OF n] s' by simp
qed

lemma decode_token_Inl:
  assumes "decode_token input length_in maxout s = Inl r" and "length_in \<le> int (length input)"
  shows "\<exists>out. r = Return 0 out"
  using assms
  by (auto simp: decode_token_def split: sum.splits if_splits
      dest: next_flag_Inl literal_token_Inl match_token_Inl)

subsection \<open>The decompression loop\<close>

lemma decompress_loop_total:
  "\<exists>r. decompress_loop input length_in maxout D s = Some r"
proof (induction "unat D - length (outbuf s)" arbitrary: s rule: less_induct)
  case less
  show ?case
  proof (cases "length (outbuf s) < unat D")
    case False
    then show ?thesis by (subst decompress_loop.simps) simp
  next
    case True
    show ?thesis
    proof (cases "decode_token input length_in maxout s")
      case (Inl r)
      with True show ?thesis by (subst decompress_loop.simps) simp
    next
      case (Inr s')
      from decode_token_Inr [OF Inr] True
      have "unat D - length (outbuf s') < unat D - length (outbuf s)" by linarith
      from less [OF this] Inr True show ?thesis
        by (subst decompress_loop.simps) simp
    qed
  qed
qed


subsection \<open>Match codes\<close>

lemma high_bits_clear:
  fixes d :: u32
  assumes "unat d < 4096" and "12 \<le> k"
  shows "\<not> bit d k"
proof -
  have "uint d = int (unat d)" by simp
  then have "uint d < 4096" using assms(1) by linarith
  then have "uint d < 2 ^ 12" by simp
  then have "d AND mask 12 = d" by (simp add: mask_eq_iff)
  then have "bit d k \<longleftrightarrow> bit (d AND mask 12) k" by simp
  then show ?thesis using assms(2) by (simp add: bit_and_iff bit_mask_iff)
qed

lemma short_code_byte0:
  fixes d :: u32
  assumes "unat d < 4096" and "2 \<le> c"
  shows "(ucast (drop_bit 8 (ucast (push_bit 12 (of_nat c - 2) OR d :: u32) :: u16)) :: byte)
       = push_bit 4 (of_nat (c - 2)) OR ucast (drop_bit 8 d AND 0x0F)"
proof -
  have m: "(0x0F :: u32) = mask 4" by (simp add: mask_eq_exp_minus_1)
  have c: "(of_nat c - 2 :: u32) = of_nat (c - 2)" using assms(2) by simp
  have h: "\<not> bit d (8 + n)" if "4 \<le> n" for n
    using high_bits_clear [OF assms(1), of "8 + n"] that by simp
  show ?thesis
    unfolding m c
    by (rule bit_word_eqI)
       (auto simp: bit_simps h dest: bit_imp_le_length)
qed

lemma short_code_byte1:
  fixes d x :: u32
  shows "(ucast ((ucast (push_bit 12 x OR d :: u32) :: u16) AND 0xFF) :: byte) = ucast (d AND 0xFF)"
proof -
  have m: "(0xFF :: u16) = mask 8" "(0xFF :: u32) = mask 8" by (simp_all add: mask_eq_exp_minus_1)
  show ?thesis
    unfolding m by (rule bit_word_eqI) (auto simp: bit_simps dest: bit_imp_le_length)
qed

lemma ucast_of_nat_byte: "(ucast (of_nat n :: u32) :: byte) = of_nat n"
  by (rule bit_word_eqI) (auto simp: bit_simps)

lemma put_long_form_spec:
  assumes "18 \<le> c"
  shows "put_long_form w (of_nat c) d = w\<lparr>buf := buf w @ piece_code_spec c d\<rparr>"
proof -
  have a: "(of_nat c - 18 :: u32) = of_nat (c - 18)" using assms by simp
  have b: "(of_nat c - 18 :: byte) = of_nat (c - 18)" using assms by simp
  have "(ucast (of_nat c - 18 :: u32) :: byte) = of_nat c - 18"
    by (simp only: a b ucast_of_nat_byte)
  then show ?thesis
    using assms by (simp add: put_long_form_def piece_code_spec_def)
qed

lemma put_short_form_spec:
  assumes "2 \<le> c" and "c \<le> 17" and "unat d < 4096"
  shows "put_short_form w (of_nat c) d = w\<lparr>buf := buf w @ piece_code_spec c d\<rparr>"
  using assms
  by (simp add: put_short_form_def piece_code_spec_def Let_def
        short_code_byte0 [OF assms(3,1)] short_code_byte1)

lemma consume_flag_bit_buf:
  "consume_flag_bit (w\<lparr>buf := b\<rparr>)
     = (if drop_bit 1 (mask_w w) = 0 then \<lparr>buf = b @ [0], flagp = length b, mask_w = 0x80\<rparr>
        else \<lparr>buf = b, flagp = flagp w, mask_w = drop_bit 1 (mask_w w)\<rparr>)"
  by (cases w) (simp add: consume_flag_bit_def writer_new_group_def Let_def)

lemma emit_long_piece:
  "18 \<le> c \<Longrightarrow> consume_flag_bit (put_long_form w (of_nat c) d) = emit_piece_spec d w c"
  by (simp add: put_long_form_spec consume_flag_bit_buf emit_piece_spec_def)

lemma emit_short_piece:
  "2 \<le> c \<Longrightarrow> c \<le> 17 \<Longrightarrow> unat d < 4096 \<Longrightarrow>
     consume_flag_bit (put_short_form w (of_nat c) d) = emit_piece_spec d w c"
  by (simp add: put_short_form_spec consume_flag_bit_buf emit_piece_spec_def)

lemma match_pieces_step:
  "273 < n \<Longrightarrow> match_pieces n
     = (if n - 273 < 3 then 271 else 273) # match_pieces (n - (if n - 273 < 3 then 271 else 273))"
  by (subst match_pieces.simps) (simp add: Let_def)

lemma match_pieces_final: "\<not> 273 < n \<Longrightarrow> match_pieces n = [n]"
  by (subst match_pieces.simps) simp

lemma match_pieces_nonempty: "match_pieces n \<noteq> []"
  by (subst match_pieces.simps) (simp add: Let_def)

lemma match_pieces_sum: "sum_list (match_pieces n) = n"
proof (induction n rule: match_pieces.induct)
  case (1 n)
  show ?case
  proof (cases "273 < n")
    case True
    with "1.IH" [OF True refl] show ?thesis
      by (subst match_pieces.simps) (auto simp: Let_def)
  next
    case False
    then show ?thesis by (simp add: match_pieces_final)
  qed
qed

lemma match_pieces_chunks: "c \<in> set (butlast (match_pieces n)) \<Longrightarrow> c = 271 \<or> c = 273"
proof (induction n rule: match_pieces.induct)
  case (1 n)
  show ?case
  proof (cases "273 < n")
    case True
    with "1.IH" [OF True refl] "1.prems" show ?thesis
      by (subst (asm) match_pieces.simps) (auto simp: Let_def match_pieces_nonempty split: if_splits)
  next
    case False
    with "1.prems" show ?thesis by (simp add: match_pieces_final)
  qed
qed

lemma match_pieces_last:
  "3 \<le> n \<Longrightarrow> 3 \<le> last (match_pieces n) \<and> last (match_pieces n) \<le> 273"
proof (induction n rule: match_pieces.induct)
  case (1 n)
  show ?case
  proof (cases "273 < n")
    case True
    have "3 \<le> n - (if n - 273 < 3 then 273 - 2 else 273)" using True by auto
    with "1.IH" [OF True refl] True show ?thesis
      by (subst (1 2) match_pieces.simps) (auto simp: Let_def match_pieces_nonempty)
  next
    case False
    with "1.prems" show ?thesis by (simp add: match_pieces_final)
  qed
qed

lemma chunk_word_nat:
  fixes len :: u32
  assumes "273 < len"
  shows "(if len - 273 < 3 then 273 - (3 - 1) else 273 :: u32)
           = of_nat (if unat len - 273 < 3 then 271 else 273)"
    and "unat (len - of_nat (if unat len - 273 < 3 then 271 else 273))
           = unat len - (if unat len - 273 < 3 then 271 else 273)"
  using assms by (auto simp: word_less_nat_alt word_le_nat_alt unat_sub)

lemma emit_match_chunks_pieces:
  "emit_match_chunks w len d
     = (foldl (emit_piece_spec d) w (butlast (match_pieces (unat len))),
        of_nat (last (match_pieces (unat len))))"
proof (induction w len d rule: emit_match_chunks.induct)
  case (1 w len distance)
  show ?case
  proof (cases "273 < len")
    case True
    define c :: nat where "c = (if unat len - 273 < 3 then 271 else 273)"
    have l: "273 < unat len" using True by (simp add: word_less_nat_alt)
    have ch: "(if len - 273 < 3 then 273 - (3 - 1) else 273 :: u32) = of_nat c"
      unfolding c_def by (rule chunk_word_nat(1) [OF True])
    have u: "unat (len - of_nat c) = unat len - c"
      unfolding c_def by (rule chunk_word_nat(2) [OF True])
    have c18: "18 \<le> c" by (simp add: c_def)
    have p: "match_pieces (unat len) = c # match_pieces (unat len - c)"
      unfolding c_def by (rule match_pieces_step [OF l])
    have "emit_match_chunks w len distance
        = emit_match_chunks (consume_flag_bit (put_long_form w (of_nat c) distance))
            (len - of_nat c) distance"
      using True by (subst emit_match_chunks.simps) (simp only: ch Let_def if_True)
    also have "\<dots> = (foldl (emit_piece_spec distance)
                          (consume_flag_bit (put_long_form w (of_nat c) distance))
                          (butlast (match_pieces (unat (len - of_nat c)))),
                       of_nat (last (match_pieces (unat (len - of_nat c)))))"
      using "1.IH" [OF True refl] by (simp only: ch)
    finally show ?thesis
      by (simp add: p u emit_long_piece [OF c18] match_pieces_nonempty)
  next
    case False
    then have "\<not> 273 < unat len" by (simp add: word_less_nat_alt)
    with False show ?thesis
      by (subst emit_match_chunks.simps) (simp add: match_pieces_final)
  qed
qed

lemma emit_match_chunks_small:
  "\<not> 273 < len \<Longrightarrow> emit_match_chunks w len d = (w, len)"
  by (subst emit_match_chunks.simps) simp

lemma writer_emit_match_pieces:
  assumes "3 \<le> unat len" and "1 \<le> unat distance" and "unat distance \<le> 4096"
  shows "writer_emit_match w len distance
       = foldl (emit_piece_spec (distance - 1)) w (match_pieces (unat len))"
proof -
  define d where "d = distance - 1"
  define c where "c = last (match_pieces (unat len))"
  define w' where "w' = foldl (emit_piece_spec d) w (butlast (match_pieces (unat len)))"
  have "unat d = unat distance - 1"
    unfolding d_def using assms(2) by (simp add: unat_sub word_le_nat_alt)
  then have d12: "unat d < 4096" using assms(2,3) by simp
  have c: "3 \<le> c" "c \<le> 273" unfolding c_def using match_pieces_last [OF assms(1)] by simp_all
  have e: "(if 273 < len then emit_match_chunks w len d else (w, len)) = (w', of_nat c)"
    using emit_match_chunks_small [of len w d] emit_match_chunks_pieces [of w len d]
    by (auto simp: w'_def c_def)
  have lt: "(of_nat c :: u32) < 18 \<longleftrightarrow> c \<le> 17"
    using c by (auto simp: word_less_nat_alt unat_of_nat)
  have "writer_emit_match w len distance
      = consume_flag_bit (if (of_nat c :: u32) < 18 then put_short_form w' (of_nat c) d
                          else put_long_form w' (of_nat c) d)"
    by (simp add: writer_emit_match_def d_def [symmetric] e)
  also have "\<dots> = emit_piece_spec d w' c"
    using c d12 by (simp add: lt emit_short_piece emit_long_piece)
  also have "\<dots> = foldl (emit_piece_spec d) w (butlast (match_pieces (unat len)) @ [c])"
    by (simp add: w'_def)
  also have "butlast (match_pieces (unat len)) @ [c] = match_pieces (unat len)"
    unfolding c_def by (simp add: match_pieces_nonempty)
  finally show ?thesis by (simp add: d_def)
qed

text \<open>Claim C6. A call of \<open>writer_emit_match\<close> with \<open>len > 273\<close> and a distance from
  1 to 4096 emits, one after the other and each with its flag bit, the pieces of
  \<open>match_pieces\<close>: a first chunk of 271 bytes when \<open>len - 273 < 3\<close> and of 273
  bytes otherwise, then the pieces of what is left. The pieces add up to \<open>len\<close>; all
  but the last are long-form chunks of 271 or 273 bytes, whose length byte \<open>c - 18\<close> fits
  a byte; the last piece has from 3 to 273 bytes and is written in short form when it has
  at most 17 bytes and in long form otherwise (\<open>piece_code_spec\<close>).\<close>

theorem C6_oversized_match_split:
  fixes len distance :: u32
  assumes "273 < len" and "1 \<le> distance \<and> distance \<le> 4096"
  shows "writer_emit_match w len distance
           = foldl (emit_piece_spec (distance - 1)) w (match_pieces (unat len))
       \<and> match_pieces (unat len)
           = (if unat len - 273 < 3 then 271 else 273)
               # match_pieces (unat len - (if unat len - 273 < 3 then 271 else 273))
       \<and> sum_list (match_pieces (unat len)) = unat len
       \<and> (\<forall>c \<in> set (butlast (match_pieces (unat len))).
             (c = 271 \<or> c = 273) \<and> 18 \<le> c \<and> c \<le> 273 \<and> c - 18 < 256)
       \<and> 3 \<le> last (match_pieces (unat len)) \<and> last (match_pieces (unat len)) \<le> 273"
proof -
  have l: "273 < unat len" using assms(1) by (simp add: word_less_nat_alt)
  have d: "1 \<le> unat distance" "unat distance \<le> 4096"
    using assms(2) by (simp_all add: word_le_nat_alt)
  have "3 \<le> unat len" using l by simp
  note writer_emit_match_pieces [OF this d] match_pieces_step [OF l] match_pieces_sum [of "unat len"]
    match_pieces_last [OF \<open>3 \<le> unat len\<close>]
  moreover have "\<forall>c \<in> set (butlast (match_pieces (unat len))).
      (c = 271 \<or> c = 273) \<and> 18 \<le> c \<and> c \<le> 273 \<and> c - 18 < 256"
  proof
    fix c assume "c \<in> set (butlast (match_pieces (unat len)))"
    then have "c = 271 \<or> c = 273" by (rule match_pieces_chunks)
    then show "(c = 271 \<or> c = 273) \<and> 18 \<le> c \<and> c \<le> 273 \<and> c - 18 < 256" by auto
  qed
  ultimately show ?thesis by blast
qed

theorem C6_witness:
  "writer_emit_match \<lparr>buf = [0], flagp = 0, mask_w = 0x80\<rparr> 275 1
     = foldl (emit_piece_spec (1 - 1)) \<lparr>buf = [0], flagp = 0, mask_w = 0x80\<rparr>
         (match_pieces (unat (275 :: u32)))
   \<and> match_pieces (unat (275 :: u32))
       = (if unat (275 :: u32) - 273 < 3 then 271 else 273)
           # match_pieces (unat (275 :: u32) - (if unat (275 :: u32) - 273 < 3 then 271 else 273))
   \<and> sum_list (match_pieces (unat (275 :: u32))) = unat (275 :: u32)
   \<and> 3 \<le> last (match_pieces (unat (275 :: u32)))
   \<and> last (match_pieces (unat (275 :: u32))) \<le> 273
   \<and> buf (writer_emit_match \<lparr>buf = [0], flagp = 0, mask_w = 0x80\<rparr> 275 1)
       = [0, 0, 0, 253, 32, 0]"
proof -
  have h: "273 < (275 :: u32)" "1 \<le> (1 :: u32) \<and> (1 :: u32) \<le> 4096" by simp_all
  note t = C6_oversized_match_split [OF h, of "\<lparr>buf = [0], flagp = 0, mask_w = 0x80\<rparr>"]
  have "buf (writer_emit_match \<lparr>buf = [0], flagp = 0, mask_w = 0x80\<rparr> 275 1)
      = [0, 0, 0, 253, 32, 0]"
    by code_simp
  with t show ?thesis by blast
qed

lemma decode_token_Inl_cases:
  "decode_token inp length_in maxout s = Inl r \<Longrightarrow> r = OutOfBounds \<or> (\<exists>out. r = Return 0 out)"
  by (auto simp: decode_token_def next_flag_def literal_token_def match_token_def
        read_match_code_def Let_def
      split: sum.splits if_splits option.splits prod.splits)




lemma yaz0_decompress_total:
  "\<exists>r. yaz0_decompress inp length_in maxout = Some r"
  using decompress_loop_total [of inp length_in maxout]
  by (auto simp: yaz0_decompress_def split: option.splits)

subsection \<open>Termination of decompression\<close>

lemma decode_token_progress:
  assumes "decode_token inp length_in maxout s = Inr s'"
  shows "\<exists>s1. next_flag inp length_in s = Inr s1
            \<and> (if flag s1 AND 0x80 \<noteq> 0 then length (outbuf s') = length (outbuf s) + 1
               else length (outbuf s) + 3 \<le> length (outbuf s'))"
proof -
  from assms obtain s1 s2 where n: "next_flag inp length_in s = Inr s1"
    and t: "(if flag s1 AND 0x80 \<noteq> 0 then literal_token inp length_in maxout s1
             else match_token inp length_in maxout s1) = Inr s2"
    and s': "s' = s2\<lparr>flag := push_bit 1 (flag s2), bits_remaining := bits_remaining s2 - 1\<rparr>"
    by (auto simp: decode_token_def split: sum.splits)
  have "if flag s1 AND 0x80 \<noteq> 0 then length (outbuf s2) = length (outbuf s1) + 1
        else length (outbuf s1) + 3 \<le> length (outbuf s2)"
    using t literal_token_Inr [of inp length_in maxout s1 s2]
      match_token_Inr [of inp length_in maxout s1 s2]
    by (auto split: if_splits)
  then show ?thesis using next_flag_Inr [OF n] n s' by (auto split: if_splits)
qed

text \<open>Claim C10. Every call of \<open>yaz0_decompress\<close> returns. An iteration of its loop
  either leaves the function (returning 0, unless the caller passed a length beyond the
  input buffer) or moves \<open>dst\<close> forward, by exactly 1 for a literal and by at least 3 for
  a match, and never beyond \<open>output + maxout\<close>; after an iteration that moved
  \<open>dst\<close> the loop goes on from the new state, and \<open>dst\<close> cannot pass the declared
  size more than once, so the loop ends.\<close>

theorem C10_decompress_terminates:
  "(\<exists>r. yaz0_decompress inp length_in maxout = Some r)
   \<and> (decode_token inp length_in maxout s = Inr s' \<longrightarrow>
        (\<exists>s1. next_flag inp length_in s = Inr s1
            \<and> (if flag s1 AND 0x80 \<noteq> 0 then length (outbuf s') = length (outbuf s) + 1
               else length (outbuf s) + 3 \<le> length (outbuf s')))
        \<and> int (length (outbuf s')) \<le> maxout)
   \<and> (decode_token inp length_in maxout s = Inl r \<longrightarrow>
        r = OutOfBounds \<or> (\<exists>out. r = Return 0 out))
   \<and> (decode_token inp length_in maxout s = Inl r \<and> length_in \<le> int (length inp) \<longrightarrow>
        (\<exists>out. r = Return 0 out))
   \<and> (length (outbuf s) < unat D \<and> decode_token inp length_in maxout s = Inr s' \<longrightarrow>
        decompress_loop inp length_in maxout D s = decompress_loop inp length_in maxout D s')
   \<and> (length (outbuf s) < unat D \<and> decode_token inp length_in maxout s = Inl r \<longrightarrow>
        decompress_loop inp length_in maxout D s = Some r)"
proof -
  have "decompress_loop inp length_in maxout D s = decompress_loop inp length_in maxout D s'"
    if "length (outbuf s) < unat D" "decode_token inp length_in maxout s = Inr s'"
    using that by (subst decompress_loop.simps) simp
  moreover have "decompress_loop inp length_in maxout D s = Some r"
    if "length (outbuf s) < unat D" "decode_token inp length_in maxout s = Inl r"
    using that by (subst decompress_loop.simps) simp
  ultimately show ?thesis
    using yaz0_decompress_total [of inp length_in maxout]
      decode_token_progress [of inp length_in maxout s s']
      decode_token_Inr [of inp length_in maxout s s']
      decode_token_Inl_cases [of inp length_in maxout s r]
      decode_token_Inl [of inp length_in maxout s r]
    by blast
qed

lemma decode_abcd_first:
  "decode_token stream_abcd 21 4 \<lparr>src = 16, outbuf = [], flag = 0, bits_remaining = 0\<rparr>
     = Inr \<lparr>src = 18, outbuf = [0x41], flag = 0xFE, bits_remaining = 7\<rparr>"
  by (simp add: decode_token_def next_flag_def literal_token_def rd_def wr_def stream_abcd_def)

lemma decode_abcd_end:
  "decode_token stream_abcd 21 4 \<lparr>src = 21, outbuf = [0x41, 0x42, 0x43, 0x44], flag = 0, bits_remaining = 0\<rparr>
     = Inl (Return 0 [0x41, 0x42, 0x43, 0x44])"
  by (simp add: decode_token_def next_flag_def)

theorem C10_witness:
  "(\<exists>r. yaz0_decompress stream_abcd 21 4 = Some r)
   \<and> decode_token stream_abcd 21 4 \<lparr>src = 16, outbuf = [], flag = 0, bits_remaining = 0\<rparr>
       = Inr \<lparr>src = 18, outbuf = [0x41], flag = 0xFE, bits_remaining = 7\<rparr>
   \<and> int (length (outbuf \<lparr>src = 18, outbuf = [0x41], flag = 0xFE, bits_remaining = 7\<rparr>)) \<le> 4
   \<and> decode_token stream_abcd 21 4 \<lparr>src = 21, outbuf = [0x41, 0x42, 0x43, 0x44], flag = 0, bits_remaining = 0\<rparr>
       = Inl (Return 0 [0x41, 0x42, 0x43, 0x44])
   \<and> (\<exists>out. Return 0 [0x41, 0x42, 0x43, 0x44] = Return 0 out)"
  using C10_decompress_terminates [of stream_abcd 21 4
      "\<lparr>src = 16, outbuf = [], flag = 0, bits_remaining = 0\<rparr>"
      "\<lparr>src = 18, outbuf = [0x41], flag = 0xFE, bits_remaining = 7\<rparr>"]
    C10_decompress_terminates [of stream_abcd 21 4
      "\<lparr>src = 21, outbuf = [0x41, 0x42, 0x43, 0x44], flag = 0, bits_remaining = 0\<rparr>" _
      "Return 0 [0x41, 0x42, 0x43, 0x44]"]
    decode_abcd_first decode_abcd_end
  by blast

subsection \<open>Validation of back-references and the returned size\<close>
















subsection \<open>Robustness of decompression\<close>














end
